theory Spec2Isabelle
  imports Complex_Main "HOL-Library.AList"
begin

section \<open>mol2chemfig: geometry of bonds\<close>

text \<open>
  The Python program computes with floats. The embedding computes with the real numbers:
  \<open>atan\<close> is \<open>arctan\<close>, \<open>x ** 0.5\<close> is \<open>sqrt\<close>, and the float remainder \<open>x % 360\<close> is
  \<open>fmod x 360\<close> below. Statements proved here are statements about this exact-arithmetic
  reading of the code.
\<close>

subsection \<open>Python arithmetic\<close>

definition fmod :: "real \<Rightarrow> real \<Rightarrow> real" where
  \<comment> \<open>Python's \<open>x % m\<close> on numbers, for a positive modulus: the result lies in \<open>[0, m)\<close>.\<close>
  "fmod x m = x - m * of_int \<lfloor>x / m\<rfloor>"

definition py_round :: "real \<Rightarrow> int" where
  \<comment> \<open>Python 3's \<open>int(round(x))\<close>: to the nearest integer, a tie to the even one.\<close>
  "py_round x =
     (let f = \<lfloor>x\<rfloor>; d = x - of_int f
      in if d < 1 / 2 then f else if 1 / 2 < d then f + 1 else if even f then f else f + 1)"

datatype error =
    MCFError string
  | KeyError
  | IndexError
  | ValueError
  | TypeError
  | ZeroDivisionError
  | AttributeError
  | RecursionError
  | IndigoException


subsection \<open>bond.py: compare-positions\<close>

definition compare_positions :: "real \<Rightarrow> real \<Rightarrow> real \<Rightarrow> real \<Rightarrow> real \<times> real" where
  "compare_positions x1 y1 x2 y2 =
     (let xdiff = x2 - x1;
          ydiff = y2 - y1;
          length = sqrt (xdiff\<^sup>2 + ydiff\<^sup>2);
          angle =
            (if xdiff = 0 then
               (if ydiff < 0 then 270 else 90)
             else
               (let raw_angle = arctan \<bar>ydiff / xdiff\<bar> * 180 / pi in
                if ydiff \<ge> 0 then
                  (if xdiff > 0 then raw_angle else 180 - raw_angle)
                else
                  (if xdiff > 0 then - raw_angle else 180 + raw_angle)))
      in (length, angle))"

subsection \<open>bond.py: the Bond class\<close>

text \<open>
  Bond objects refer to each other (\<open>parent\<close>, \<open>descendants\<close>) by reference. A reference is
  the place an object lives at: the dummy root bond of the tree, the entry of the
  molecule's \<open>bonds\<close> dictionary under a key \<open>(start, end)\<close> (every entry of that dictionary
  holds an object of its own, see \<open>parseBonds\<close> and \<open>link_atoms\<close>), or an object created
  later and held only by the tree. Atoms are referred to by their index, the key of the
  molecule's \<open>atoms\<close> dictionary.
\<close>

datatype bref = Root | Key nat nat | New nat

datatype pyval = Str string | Num int

record bond =
  start_atom :: nat
  end_atom :: nat
  bond_type :: "pyval option"
  tikz_styles :: "string set"
  tikz_values :: "(string \<times> int) list"
  descendants :: "bref list"
  bond_length :: real
  angle :: real
  marker :: string
  is_last :: bool
  to_phantom :: bool
  is_trunk :: bool
  parent :: "bref option"
  clockwise :: int

definition invert :: "bond \<Rightarrow> bond" where
  \<comment> \<open>\<open>deepcopy\<close>, then the two atoms are those of the original, swapped. The function
     returns a new record and leaves its argument alone.\<close>
  "invert self =
     (let c = self;
          c = c\<lparr>start_atom := end_atom self, end_atom := start_atom self\<rparr>;
          c = c\<lparr>angle := fmod (angle c + 180) 360\<rparr>
      in if bond_type self = Some (Str ''upto'') then c\<lparr>bond_type := Some (Str ''upfrom'')\<rparr>
         else if bond_type self = Some (Str ''downto'') then c\<lparr>bond_type := Some (Str ''downfrom'')\<rparr>
         else c)"


definition set_link :: "bond \<Rightarrow> bond" where
  "set_link self =
     self\<lparr>bond_type := Some (Str ''link''), tikz_styles := {}, tikz_values := [], marker := []\<rparr>"

text \<open>
  Modelled from the spec: the Atom class (module \<open>atom\<close>) is not among the sources. An
  atom holds its index, its coordinates, element symbol, implicit-hydrogen count, charge,
  radical-electron count, the list of its neighbours' indices and the growing list of the
  angles of the bonds that start at it.
\<close>

record atom =
  idx :: nat
  atom_x :: real
  atom_y :: real
  element :: string
  hydrogens :: int
  charge :: int
  radical :: int
  neighbors :: "nat list"
  bond_angles :: "real list"






subsection \<open>molecule.py: the Molecule class\<close>

text \<open>
  The options dictionary, with the keys that the modelled code reads. The keys
  \<open>entry_atom\<close> and \<open>exit_atom\<close> carry the suffix \<open>option\<close> here, since the molecule has
  attributes of the same names.
\<close>

record opts =
  flip_horizontal :: bool
  flip_vertical :: bool
  rotate :: real
  markers :: "string option"
  entry_atom_option :: "int option"
  exit_atom_option :: "int option"
  cross_bond :: "(int \<times> int) list option"
  aromatic_circles :: bool
  strict :: bool

text \<open>
  The stereo constants of the Indigo toolkit are not part of the sources; the functions
  that need them take them as a parameter.
\<close>

record indigo =
  UP :: int
  DOWN :: int
  EITHER :: int

definition bond_mapping :: "indigo \<Rightarrow> int \<Rightarrow> string option" where
  \<comment> \<open>A dictionary display: of two equal keys the later one wins.\<close>
  "bond_mapping ind =
     map_of (rev [(1, ''single''), (2, ''double''), (3, ''triple''), (4, ''aromatic''),
                  (UP ind, ''upto''), (DOWN ind, ''downto''), (EITHER ind, ''either'')])"

fun str_nat :: "nat \<Rightarrow> string" where
  \<comment> \<open>\<open>'%s' % n\<close> for a number: its decimal digits.\<close>
  "str_nat n =
     (if n < 10 then [char_of (48 + n)] else str_nat (n div 10) @ [char_of (48 + n mod 10)])"

definition Bond_init :: "indigo \<Rightarrow> opts \<Rightarrow> atom \<Rightarrow> atom \<Rightarrow> int option \<Rightarrow> int \<Rightarrow> bond" where
  \<comment> \<open>\<open>Bond(options, start_atom, end_atom, bond_type, stereo)\<close>; the class attributes
     \<open>is_last\<close>, \<open>to_phantom\<close>, \<open>is_trunk\<close>, \<open>parent\<close> and \<open>clockwise\<close> have their defaults.\<close>
  "Bond_init ind options sa ea btype stereo =
     (let stereo =
            (if stereo \<in> {UP ind, DOWN ind} \<and> flip_vertical options \<noteq> flip_horizontal options
             then UP ind + DOWN ind - stereo else stereo);
          bt =
            (if stereo \<in> {UP ind, DOWN ind, EITHER ind}
             then map_option Str (bond_mapping ind stereo)
             else (case btype of
                     None \<Rightarrow> None
                   | Some n \<Rightarrow> (case bond_mapping ind n of
                                 Some name \<Rightarrow> Some (Str name)
                               | None \<Rightarrow> Some (Num n))));
          (len, ang) = compare_positions (atom_x sa) (atom_y sa) (atom_x ea) (atom_y ea);
          ang = ang + rotate options;
          mk = (case markers options of
                  None \<Rightarrow> []
                | Some prefix \<Rightarrow>
                    (let ids = sort [idx sa + 1, idx ea + 1]
                     in prefix @ str_nat (ids ! 0) @ ''-'' @ str_nat (ids ! 1)))
      in \<lparr>start_atom = idx sa, end_atom = idx ea, bond_type = bt, tikz_styles = {},
          tikz_values = [], descendants = [], bond_length = len, angle = ang, marker = mk,
          is_last = False, to_phantom = False, is_trunk = False, parent = None,
          clockwise = 0\<rparr>)"

text \<open>
  The objects of the bond tree: bonds proper, the dummy first bond (an end atom and its
  descendants; every other attribute is the class default) and the ring bond that draws an
  aromatic circle (angle, parent angle, length, radius).
\<close>

datatype node =
    Bond bond
  | DummyFirstBond nat "bref list"
  | AromaticRingBond real "real option" real real

fun node_descendants :: "node \<Rightarrow> bref list" where
  "node_descendants (Bond b) = descendants b"
| "node_descendants (DummyFirstBond e ds) = ds"
| "node_descendants (AromaticRingBond a pa l r) = []"




fun append_descendant :: "bref \<Rightarrow> node \<Rightarrow> node" where
  \<comment> \<open>\<open>bond.descendants.append(child)\<close>; ring bonds never get descendants.\<close>
  "append_descendant c (Bond b) = Bond (b\<lparr>descendants := descendants b @ [c]\<rparr>)"
| "append_descendant c (DummyFirstBond e ds) = DummyFirstBond e (ds @ [c])"
| "append_descendant c (AromaticRingBond a pa l r) = AromaticRingBond a pa l r"

text \<open>
  The state of a molecule under construction. The dictionary \<open>atoms\<close> is an association
  list in insertion order. The dictionary \<open>bonds\<close> is the list \<open>bond_keys\<close> of its keys in
  insertion order, the object of key \<open>(s, e)\<close> living at \<open>Key s e\<close> in \<open>heap\<close>; the heap also
  holds the bond objects that are not in the dictionary. \<open>next_new\<close> numbers the objects
  created after the dictionary was filled. Atom-valued attributes hold the atom's index.
\<close>

record molecule =
  options :: opts
  atoms :: "(nat \<times> atom) list"
  bond_keys :: "(nat \<times> nat) list"
  heap :: "bref \<Rightarrow> node option"
  atom_pairs :: "(nat \<times> nat) list"
  seen_atoms :: "nat set"
  seen_bonds :: "(nat \<times> nat) set"
  entry_atom :: "nat option"
  exit_atom :: "nat option"
  root_bond :: "bref option"
  exit_bond :: "bref option"
  bond_scale :: real
  next_new :: nat

definition bonds_get :: "molecule \<Rightarrow> nat \<times> nat \<Rightarrow> bond option" where
  \<comment> \<open>\<open>self.bonds[(s, e)]\<close>; \<open>None\<close> is a \<open>KeyError\<close>.\<close>
  "bonds_get m k = (case heap m (Key (fst k) (snd k)) of Some (Bond b) \<Rightarrow> Some b | _ \<Rightarrow> None)"

definition bonds_set :: "nat \<times> nat \<Rightarrow> bond \<Rightarrow> molecule \<Rightarrow> molecule" where
  \<comment> \<open>\<open>self.bonds[(s, e)] = bond\<close>\<close>
  "bonds_set k b m =
     m\<lparr>bond_keys := (if k \<in> set (bond_keys m) then bond_keys m else bond_keys m @ [k]),
       heap := (heap m)(Key (fst k) (snd k) \<mapsto> Bond b)\<rparr>"

definition link_atoms :: "indigo \<Rightarrow> nat \<Rightarrow> nat \<Rightarrow> molecule \<Rightarrow> error + molecule" where
  "link_atoms ind x y m =
     (case map_of (atoms m) x of None \<Rightarrow> Inl KeyError | Some sa \<Rightarrow>
      case map_of (atoms m) y of None \<Rightarrow> Inl KeyError | Some ea \<Rightarrow>
        (let bond = Bond_init ind (options m) sa ea None 0;
             bond = set_link bond;
             m = bonds_set (x, y) bond m;
             m = bonds_set (y, x) (invert bond) m;
             m = m\<lparr>atoms := AList.map_entry x (\<lambda>a. a\<lparr>neighbors := neighbors a @ [y]\<rparr>) (atoms m)\<rparr>;
             m = m\<lparr>atoms := AList.map_entry y (\<lambda>a. a\<lparr>neighbors := neighbors a @ [x]\<rparr>) (atoms m)\<rparr>
         in Inr m))"

fun split_pass ::
  "nat set \<Rightarrow> (nat \<times> nat) list \<Rightarrow> (nat \<times> nat) list \<Rightarrow> (nat \<times> nat) list
   \<Rightarrow> nat set \<times> (nat \<times> nat) list \<times> (nat \<times> nat) list" where
  \<comment> \<open>The \<open>for r in rest\<close> loop of \<open>split_pairs\<close>, on \<open>connected_atoms\<close>, \<open>connected_pairs\<close>
     and \<open>unconnected\<close>.\<close>
  "split_pass connected_atoms connected_pairs unconnected [] =
     (connected_atoms, connected_pairs, unconnected)"
| "split_pass connected_atoms connected_pairs unconnected (r # rest) =
     (let s = {fst r, snd r}
      in if connected_atoms \<inter> s \<noteq> {}
         then split_pass (connected_atoms \<union> s) (connected_pairs @ [r]) unconnected rest
         else split_pass connected_atoms connected_pairs (unconnected @ [r]) rest)"

lemma split_pass_length:
  "split_pass ca cp un rest = (ca', cp', un') \<Longrightarrow> length un' \<le> length un + length rest"
  by (induction rest arbitrary: ca cp un) (fastforce simp: Let_def split: if_splits)+

function split_loop ::
  "nat set \<Rightarrow> (nat \<times> nat) list \<Rightarrow> (nat \<times> nat) list \<Rightarrow> (nat \<times> nat) list \<times> (nat \<times> nat) list" where
  \<comment> \<open>The \<open>while True\<close> loop of \<open>split_pairs\<close>.\<close>
  "split_loop connected_atoms connected_pairs rest =
     (case split_pass connected_atoms connected_pairs [] rest of
        (connected_atoms', connected_pairs', unconnected) \<Rightarrow>
          if length unconnected = length rest then (connected_pairs', unconnected)
          else split_loop connected_atoms' connected_pairs' unconnected)"
  by pat_completeness auto
termination
proof (relation "measure (\<lambda>(ca, cp, rest). length rest)")
  show "wf (measure (\<lambda>(ca, cp, rest). length rest))" by simp
next
  fix ca :: "nat set" and cp rest :: "(nat \<times> nat) list" and ca' y cp' un
  assume x: "(ca', y) = split_pass ca cp [] rest" and z: "(cp', un) = y"
    and ne: "length un \<noteq> length rest"
  from x z have "split_pass ca cp [] rest = (ca', cp', un)" by simp
  from split_pass_length [OF this] ne
  show "((ca', cp', un), (ca, cp, rest)) \<in> measure (\<lambda>(ca, cp, rest). length rest)" by simp
qed

definition split_pairs ::
  "(nat \<times> nat) list \<Rightarrow> error + ((nat \<times> nat) list \<times> (nat \<times> nat) list)" where
  "split_pairs pair_list =
     (case pair_list of
        [] \<Rightarrow> Inl IndexError
      | first # rest \<Rightarrow> Inr (split_loop {fst first, snd first} [first] rest))"

declare split_loop.simps [simp del]

lemma split_loop_length:
  "split_loop ca cp rest = (cp', un) \<Longrightarrow> length un \<le> length rest"
proof (induction ca cp rest rule: split_loop.induct)
  case (1 ca cp rest)
  obtain ca1 cp1 un1 where sp: "split_pass ca cp [] rest = (ca1, cp1, un1)"
    by (cases "split_pass ca cp [] rest") auto
  from split_pass_length [OF sp] have le: "length un1 \<le> length rest" by simp
  show ?case
  proof (cases "length un1 = length rest")
    case True
    with "1.prems" sp show ?thesis
      by (simp add: split_loop.simps [of ca cp rest])
  next
    case False
    with "1.prems" sp have "split_loop ca1 cp1 un1 = (cp', un)"
      by (simp add: split_loop.simps [of ca cp rest])
    with "1.IH" [OF sp [symmetric] refl False] have "length un \<le> length un1" by simp
    with le show ?thesis by simp
  qed
qed

lemma split_pairs_length:
  "split_pairs pair_list = Inr (connected', rest) \<Longrightarrow> length rest < length pair_list"
  by (auto simp: split_pairs_def split: list.splits dest: split_loop_length)

function fragments_loop ::
  "(nat \<times> nat) list \<Rightarrow> (nat \<times> nat) list list \<Rightarrow> error + (nat \<times> nat) list list" where
  \<comment> \<open>The \<open>while True\<close> loop of \<open>molecule_fragments\<close>, on \<open>atom_pairs\<close> and \<open>fragments\<close>.\<close>
  "fragments_loop pairs fragments =
     (case split_pairs pairs of
        Inl e \<Rightarrow> Inl e
      | Inr (connected', rest) \<Rightarrow>
          (let fragments = fragments @ [connected']
           in if rest = [] then Inr fragments else fragments_loop rest fragments))"
  by pat_completeness auto
termination
proof (relation "measure (\<lambda>(pairs, fragments). length pairs)")
  show "wf (measure (\<lambda>(pairs, fragments). length pairs))" by simp
next
  fix pairs :: "(nat \<times> nat) list" and fragments :: "(nat \<times> nat) list list"
    and x2 connected' rest fragments'
  assume "split_pairs pairs = Inr x2" and "(connected', rest) = x2"
  then have "split_pairs pairs = Inr (connected', rest)" by simp
  from split_pairs_length [OF this]
  show "((rest, fragments'), (pairs, fragments))
      \<in> measure (\<lambda>(pairs, fragments). length pairs)" by simp
qed

declare fragments_loop.simps [simp del]

definition molecule_fragments :: "molecule \<Rightarrow> error + (nat \<times> nat) list list" where
  "molecule_fragments m =
     (let atom_pairs = atom_pairs m
      in if length atom_pairs = 0 then Inr []
         else if length atom_pairs = 1 then Inr [atom_pairs]
         else fragments_loop atom_pairs [])"

fun link_fragments :: "indigo \<Rightarrow> (nat \<times> nat) list list \<Rightarrow> molecule \<Rightarrow> error + molecule" where
  \<comment> \<open>\<open>for head, tail in zip(fragments[:-1], fragments[1:])\<close>; indexing an empty list is an
     \<open>IndexError\<close>.\<close>
  "link_fragments ind (head # tail # fragments) m =
     (if head = [] \<or> tail = [] then Inl IndexError
      else
        (let head_last = snd (last head);
             tail_first = fst (hd tail)
         in case link_atoms ind head_last tail_first m of
              Inl e \<Rightarrow> Inl e
            | Inr m \<Rightarrow> link_fragments ind (tail # fragments) m))"
| "link_fragments ind fragments m = Inr m"

fun link_orphans :: "indigo \<Rightarrow> nat \<Rightarrow> nat list \<Rightarrow> molecule \<Rightarrow> error + molecule" where
  \<comment> \<open>\<open>for atom in unbonded: self.link_atoms(anchor, atom)\<close>\<close>
  "link_orphans ind anchor [] m = Inr m"
| "link_orphans ind anchor (a # unbonded) m =
     (case link_atoms ind anchor a m of
        Inl e \<Rightarrow> Inl e
      | Inr m \<Rightarrow> link_orphans ind anchor unbonded m)"

definition unbonded_atoms :: "molecule \<Rightarrow> nat list" where
  \<comment> \<open>\<open>list(atoms - bonded)\<close>. Python leaves the order of a set open; the model lists the
     set in ascending order.\<close>
  "unbonded_atoms m =
     (let atoms' = set (map fst (atoms m));
          bonded = (\<Union>pair \<in> set (atom_pairs m). {fst pair, snd pair})
      in sorted_list_of_set (atoms' - bonded))"

definition connect_fragments :: "indigo \<Rightarrow> molecule \<Rightarrow> error + molecule" where
  "connect_fragments ind m =
     (case molecule_fragments m of
        Inl e \<Rightarrow> Inl e
      | Inr fragments \<Rightarrow>
          (case (if length fragments > 1 then link_fragments ind fragments m else Inr m) of
             Inl e \<Rightarrow> Inl e
           | Inr m \<Rightarrow>
               (let unbonded = unbonded_atoms m
                in if unbonded \<noteq> [] then
                     (if fragments \<noteq> [] then
                        (if last fragments = [] then Inl IndexError
                         else link_orphans ind (snd (last (last fragments))) unbonded m)
                      else link_orphans ind (hd unbonded) (tl unbonded) m)
                   else Inr m)))"



definition update_bond :: "bref \<Rightarrow> (bond \<Rightarrow> bond) \<Rightarrow> molecule \<Rightarrow> molecule" where
  \<comment> \<open>An assignment to attributes of the Bond object at a reference.\<close>
  "update_bond r f m =
     (case heap m r of
        Some (Bond b) \<Rightarrow> m\<lparr>heap := (heap m)(r \<mapsto> Bond (f b))\<rparr>
      | _ \<Rightarrow> m)"

definition parseTree_enter ::
  "atom option \<Rightarrow> atom \<Rightarrow> molecule \<Rightarrow> error + ((bref option \<times> molecule) + (bref \<times> molecule))" where
  \<comment> \<open>\<open>parseTree\<close> up to the line that flags the end atom as known: the result is a
     \<open>return\<close> (left) or the bond to go on with (right).\<close>
  "parseTree_enter sa ea m =
     (let end_idx = idx ea
      in case sa of
           None \<Rightarrow>
             Inr (Inr (Root, m\<lparr>heap := (heap m)(Root \<mapsto> DummyFirstBond end_idx [])\<rparr>))
         | Some sa \<Rightarrow>
             (let start_idx = idx sa
              in if (start_idx, end_idx) \<in> seen_bonds m \<or> (end_idx, start_idx) \<in> seen_bonds m
                 then Inr (Inl (None, m))
                 else
                   (case bonds_get m (start_idx, end_idx) of
                      None \<Rightarrow> Inl KeyError
                    | Some b \<Rightarrow>
                        (let bond = Key start_idx end_idx;
                             m = m\<lparr>seen_bonds := insert (start_idx, end_idx) (seen_bonds m)\<rparr>
                         in if end_idx \<in> seen_atoms m
                            then Inr (Inl (Some bond, update_bond bond (\<lambda>b. b\<lparr>to_phantom := True\<rparr>) m))
                            else Inr (Inr (bond, m))))))"

fun parseTree :: "nat \<Rightarrow> atom option \<Rightarrow> atom \<Rightarrow> molecule \<Rightarrow> error + (bref option \<times> molecule)"
  and parse_neighbors ::
    "nat \<Rightarrow> atom option \<Rightarrow> atom \<Rightarrow> bref \<Rightarrow> nat list \<Rightarrow> molecule \<Rightarrow> error + molecule" where
  \<comment> \<open>The first argument bounds the depth of the recursion, as Python's recursion limit
     does. \<open>parse_neighbors\<close> is the loop \<open>for ni in end_atom.neighbors\<close>.\<close>
  "parseTree 0 sa ea m = Inl RecursionError"
| "parseTree (Suc limit) sa ea m =
     (case parseTree_enter sa ea m of
        Inl e \<Rightarrow> Inl e
      | Inr (Inl returned) \<Rightarrow> Inr returned
      | Inr (Inr (bond, m)) \<Rightarrow>
          (let m = m\<lparr>seen_atoms := insert (idx ea) (seen_atoms m)\<rparr>;
               m = (if exit_atom m = Some (idx ea) then m\<lparr>exit_bond := Some bond\<rparr> else m)
           in case parse_neighbors limit sa ea bond (neighbors ea) m of
                Inl e \<Rightarrow> Inl e
              | Inr m \<Rightarrow> Inr (Some bond, m)))"
| "parse_neighbors limit sa ea bond [] m = Inr m"
| "parse_neighbors limit sa ea bond (ni # nis) m =
     (if sa \<noteq> None \<and> ni = idx (the sa) then parse_neighbors limit sa ea bond nis m
      else
        (case map_of (atoms m) ni of
           None \<Rightarrow> Inl KeyError
         | Some next_atom \<Rightarrow>
             (case parseTree limit (Some ea) next_atom m of
                Inl e \<Rightarrow> Inl e
              | Inr (None, m) \<Rightarrow> parse_neighbors limit sa ea bond nis m
              | Inr (Some next_bond, m) \<Rightarrow>
                  (let m = update_bond next_bond (\<lambda>b. b\<lparr>parent := Some bond\<rparr>) m;
                       m = m\<lparr>heap := (heap m)(bond := map_option (append_descendant next_bond)
                                                          (heap m bond))\<rparr>
                   in parse_neighbors limit sa ea bond nis m))))"

fun recurse :: "nat \<Rightarrow> (bref \<Rightarrow> node option) \<Rightarrow> bref \<Rightarrow> error + bref list"
  and recurse_all :: "nat \<Rightarrow> (bref \<Rightarrow> node option) \<Rightarrow> bref list \<Rightarrow> error + bref list" where
  \<comment> \<open>The local function \<open>recurse\<close> of \<open>treebonds\<close> with its loop over the descendants; the
     result is what the call appends to \<open>allbonds\<close>.\<close>
  "recurse 0 h rt = Inl RecursionError"
| "recurse (Suc limit) h rt =
     (case h rt of
        None \<Rightarrow> Inl AttributeError
      | Some nd \<Rightarrow>
          (case recurse_all limit h (node_descendants nd) of
             Inl e \<Rightarrow> Inl e
           | Inr bs \<Rightarrow> Inr (rt # bs)))"
| "recurse_all limit h [] = Inr []"
| "recurse_all limit h (d # ds) =
     (case recurse limit h d of
        Inl e \<Rightarrow> Inl e
      | Inr bs \<Rightarrow>
          (case recurse_all limit h ds of
             Inl e \<Rightarrow> Inl e
           | Inr cs \<Rightarrow> Inr (bs @ cs)))"

















definition flip_atoms :: "opts \<Rightarrow> (nat \<times> atom) list \<Rightarrow> (nat \<times> atom) list" where
  \<comment> \<open>The loop that mirrors the coordinates.\<close>
  "flip_atoms options' as =
     map (\<lambda>(k, a).
            (k, a\<lparr>atom_x := (if flip_horizontal options' then - atom_x a else atom_x a),
                  atom_y := (if flip_vertical options' then - atom_y a else atom_y a)\<rparr>)) as"




subsection \<open>Vocabulary of the statements\<close>

definition atoms_of :: "(nat \<times> nat) list \<Rightarrow> nat set" where
  \<comment> \<open>the atoms that occur in a list of atom pairs\<close>
  "atoms_of pairs = (\<Union>pair \<in> set pairs. {fst pair, snd pair})"

definition pair_rel :: "(nat \<times> nat) list \<Rightarrow> (nat \<times> nat) set" where
  \<comment> \<open>two atoms are bonded: they form an atom pair, in either order\<close>
  "pair_rel pairs = {(a, b). (a, b) \<in> set pairs \<or> (b, a) \<in> set pairs}"

definition bonded_fragments :: "molecule \<Rightarrow> nat set set" where
  \<comment> \<open>the bonded fragments: for every bonded atom, the set of atoms that a path of bonds
     reaches from it\<close>
  "bonded_fragments m =
     (\<lambda>a. {b. (a, b) \<in> (pair_rel (atom_pairs m))\<^sup>*}) ` atoms_of (atom_pairs m)"

definition orphan_atoms :: "molecule \<Rightarrow> nat set" where
  \<comment> \<open>the atoms in no atom pair\<close>
  "orphan_atoms m = fst ` set (atoms m) - atoms_of (atom_pairs m)"

definition neighbor_rel :: "molecule \<Rightarrow> (nat \<times> nat) set" where
  \<comment> \<open>\<open>b\<close> is in the neighbour list of atom \<open>a\<close>\<close>
  "neighbor_rel m = {(a, b). \<exists>x. map_of (atoms m) a = Some x \<and> b \<in> set (neighbors x)}"

definition connected_molecule :: "molecule \<Rightarrow> bool" where
  \<comment> \<open>every atom is reached from every atom along neighbour lists\<close>
  "connected_molecule m \<longleftrightarrow>
     (\<forall>a \<in> fst ` set (atoms m). \<forall>b \<in> fst ` set (atoms m). (a, b) \<in> (neighbor_rel m)\<^sup>*)"

text \<open>
  The notions below serve the proofs about fragments; none of them is code of the program.
\<close>

definition conn :: "(nat \<times> nat) set \<Rightarrow> nat set \<Rightarrow> bool" where
  \<comment> \<open>any two members of the set are joined by a path of the relation\<close>
  "conn E A \<longleftrightarrow> (\<forall>a \<in> A. \<forall>b \<in> A. (a, b) \<in> E\<^sup>*)"

fun disjoint_frags :: "(nat \<times> nat) list list \<Rightarrow> bool" where
  \<comment> \<open>no two fragments of the list share an atom\<close>
  "disjoint_frags [] = True"
| "disjoint_frags (f # fs) = ((\<forall>g \<in> set fs. atoms_of f \<inter> atoms_of g = {}) \<and> disjoint_frags fs)"

definition fragmentation :: "(nat \<times> nat) set \<Rightarrow> (nat \<times> nat) list \<Rightarrow> (nat \<times> nat) list list \<Rightarrow> bool" where
  \<comment> \<open>the list splits the pairs into non-empty, connected fragments without common atoms\<close>
  "fragmentation E pairs G \<longleftrightarrow>
     (\<forall>f \<in> set G. f \<noteq> [] \<and> conn E (atoms_of f)) \<and> \<Union>(set ` set G) = set pairs
     \<and> disjoint_frags G"

definition add_key :: "'a \<Rightarrow> 'a list \<Rightarrow> 'a list" where
  \<comment> \<open>the keys of a dictionary after an assignment to a key\<close>
  "add_key k ks = (if k \<in> set ks then ks else ks @ [k])"

fun link_list :: "indigo \<Rightarrow> (nat \<times> nat) list \<Rightarrow> molecule \<Rightarrow> error + molecule" where
  \<comment> \<open>\<open>link_atoms\<close> on each pair of a list in turn\<close>
  "link_list ind [] m = Inr m"
| "link_list ind (l # ls) m =
     (case link_atoms ind (fst l) (snd l) m of Inl e \<Rightarrow> Inl e | Inr m \<Rightarrow> link_list ind ls m)"

fun frag_links :: "(nat \<times> nat) list list \<Rightarrow> (nat \<times> nat) list" where
  \<comment> \<open>the pairs that \<open>link_fragments\<close> hands to \<open>link_atoms\<close>\<close>
  "frag_links (h # t # fs) = (snd (last h), fst (hd t)) # frag_links (t # fs)"
| "frag_links fs = []"

definition both :: "(nat \<times> nat) list \<Rightarrow> (nat \<times> nat) list" where
  \<comment> \<open>the dictionary keys of a list of links: each link in its two orientations\<close>
  "both ls = concat (map (\<lambda>l. [(fst l, snd l), (snd l, fst l)]) ls)"

definition is_link :: "bond \<Rightarrow> bool" where
  \<comment> \<open>an invisible link bond\<close>
  "is_link b \<longleftrightarrow> bond_type b = Some (Str ''link'') \<and> tikz_styles b = {}"

definition orphan_links :: "(nat \<times> nat) list list \<Rightarrow> nat list \<Rightarrow> (nat \<times> nat) list" where
  \<comment> \<open>the pairs that the orphan loop of \<open>connect_fragments\<close> hands to \<open>link_atoms\<close>\<close>
  "orphan_links G us =
     (if us \<noteq> [] then
        (if G \<noteq> [] then map (Pair (snd (last (last G)))) us else map (Pair (hd us)) (tl us))
      else [])"


subsection \<open>Example inputs\<close>

text \<open>
  Concrete inputs for the closed theorems: the stereo constants as the toolkit defines
  them, an options dictionary with every option at its default, atoms and bonds with plain
  attributes, and small molecules.
\<close>

abbreviation indigo_consts :: indigo where
  "indigo_consts \<equiv> \<lparr>UP = 5, DOWN = 6, EITHER = 4\<rparr>"

abbreviation plain_options :: opts where
  "plain_options \<equiv> \<lparr>flip_horizontal = False, flip_vertical = False, rotate = 0, markers = None,
     entry_atom_option = None, exit_atom_option = None, cross_bond = None,
     aromatic_circles = False, strict = False\<rparr>"

abbreviation carbon :: "nat \<Rightarrow> real \<Rightarrow> real \<Rightarrow> nat list \<Rightarrow> real list \<Rightarrow> atom" where
  "carbon i x y ns angles \<equiv> \<lparr>idx = i, atom_x = x, atom_y = y, element = ''C'', hydrogens = 0,
     charge = 0, radical = 0, neighbors = ns, bond_angles = angles\<rparr>"

abbreviation single_bond :: "nat \<Rightarrow> nat \<Rightarrow> real \<Rightarrow> bond" where
  "single_bond s e a \<equiv> \<lparr>start_atom = s, end_atom = e, bond_type = Some (Str ''single''),
     tikz_styles = {}, tikz_values = [], descendants = [], bond_length = 1, angle = a,
     marker = [], is_last = False, to_phantom = False, is_trunk = False, parent = None,
     clockwise = 0\<rparr>"

abbreviation no_atoms :: molecule where
  "no_atoms \<equiv> \<lparr>options = plain_options, atoms = [], bond_keys = [], heap = Map.empty,
     atom_pairs = [], seen_atoms = {}, seen_bonds = {}, entry_atom = None, exit_atom = None,
     root_bond = None, exit_bond = None, bond_scale = 1, next_new = 0\<rparr>"

abbreviation bond_and_orphan :: molecule where
  "bond_and_orphan \<equiv> \<lparr>options = plain_options,
     atoms = [(0, carbon 0 0 0 [1] [0]), (1, carbon 1 1 0 [0] [180]), (2, carbon 2 5 0 [] [])],
     bond_keys = [(0, 1), (1, 0)],
     heap = [Key 0 1 \<mapsto> Bond (single_bond 0 1 0), Key 1 0 \<mapsto> Bond (single_bond 1 0 180)],
     atom_pairs = [(0, 1)], seen_atoms = {}, seen_bonds = {}, entry_atom = None,
     exit_atom = None, root_bond = None, exit_bond = None, bond_scale = 1, next_new = 0\<rparr>"




section \<open>Properties\<close>

subsection \<open>Python arithmetic\<close>

lemma fmod_range: "0 < m \<Longrightarrow> 0 \<le> fmod x m \<and> fmod x m < m"
proof -
  assume m: "0 < m"
  have lo: "of_int \<lfloor>x / m\<rfloor> \<le> x / m" by simp
  have hi: "x / m < of_int \<lfloor>x / m\<rfloor> + 1" by linarith
  from lo m have "of_int \<lfloor>x / m\<rfloor> * m \<le> x"
    by (simp only: pos_le_divide_eq)
  moreover from hi m have "x < (of_int \<lfloor>x / m\<rfloor> + 1) * m"
    by (simp only: pos_divide_less_eq)
  ultimately show ?thesis
    by (simp add: fmod_def algebra_simps)
qed



subsection \<open>The angle convention of compare-positions\<close>





subsection \<open>Inverting a bond\<close>


text \<open>
  Claim C7, as amended. For every bond \<open>b\<close>, \<open>invert b\<close> is a new bond whose start and end
  atoms are those of \<open>b\<close> swapped and whose angle is that of \<open>b\<close> rotated by 180 degrees
  (modulo 360). The type \<open>upto\<close> becomes \<open>upfrom\<close> and \<open>downto\<close> becomes \<open>downfrom\<close>; every
  other type, \<open>upfrom\<close> and \<open>downfrom\<close> included, is kept. Length, styles, marker, flags and
  the clockwise tag are those of \<open>b\<close>.
\<close>

theorem invert_fields:
  "start_atom (invert b) = end_atom b
   \<and> end_atom (invert b) = start_atom b
   \<and> angle (invert b) = fmod (angle b + 180) 360
   \<and> (bond_type b = Some (Str ''upto'') \<longrightarrow> bond_type (invert b) = Some (Str ''upfrom''))
   \<and> (bond_type b = Some (Str ''downto'') \<longrightarrow> bond_type (invert b) = Some (Str ''downfrom''))
   \<and> (bond_type b \<noteq> Some (Str ''upto'') \<and> bond_type b \<noteq> Some (Str ''downto'')
        \<longrightarrow> bond_type (invert b) = bond_type b)
   \<and> bond_length (invert b) = bond_length b
   \<and> tikz_styles (invert b) = tikz_styles b
   \<and> tikz_values (invert b) = tikz_values b
   \<and> marker (invert b) = marker b
   \<and> is_last (invert b) = is_last b
   \<and> to_phantom (invert b) = to_phantom b
   \<and> is_trunk (invert b) = is_trunk b
   \<and> clockwise (invert b) = clockwise b"
  by (simp add: invert_def Let_def)

text \<open>
  The theorem at a \<open>downto\<close> bond.
\<close>

theorem invert_fields_witness:
  "bond_type (invert \<lparr>start_atom = 0, end_atom = 1, bond_type = Some (Str ''downto''),
      tikz_styles = {}, tikz_values = [], descendants = [], bond_length = 1, angle = 0,
      marker = [], is_last = False, to_phantom = False, is_trunk = False,
      parent = None, clockwise = 0\<rparr>) = Some (Str ''downfrom'')"
  using invert_fields [of "\<lparr>start_atom = 0, end_atom = 1, bond_type = Some (Str ''downto''),
      tikz_styles = {}, tikz_values = [], descendants = [], bond_length = 1, angle = 0,
      marker = [], is_last = False, to_phantom = False, is_trunk = False,
      parent = None, clockwise = 0\<rparr>"]
  by simp

text \<open>
  Claim C7 as stated has \<open>upfrom\<close> mapped back to \<open>upto\<close>. The code tests for \<open>upto\<close>
  and \<open>downto\<close> only, so the inverse of an \<open>upfrom\<close> bond is still \<open>upfrom\<close>.
\<close>

theorem invert_upfrom_not_upto:
  "bond_type (invert \<lparr>start_atom = 0, end_atom = 1, bond_type = Some (Str ''upfrom''),
      tikz_styles = {}, tikz_values = [], descendants = [], bond_length = 1, angle = 0,
      marker = [], is_last = False, to_phantom = False, is_trunk = False,
      parent = None, clockwise = 0\<rparr>) \<noteq> Some (Str ''upto'')"
  by (simp add: invert_def Let_def)

subsection \<open>The precondition of set-cross\<close>









subsection \<open>Fragments and link bonds\<close>

lemma atoms_of_simps [simp]:
  "atoms_of [] = {}"
  "atoms_of (p # ps) = {fst p, snd p} \<union> atoms_of ps"
  "atoms_of (ps @ qs) = atoms_of ps \<union> atoms_of qs"
  by (auto simp: atoms_of_def)

lemma atoms_of_mono: "set ps \<subseteq> set qs \<Longrightarrow> atoms_of ps \<subseteq> atoms_of qs"
  by (auto simp: atoms_of_def)

lemma conn_insert_edge:
  assumes c: "conn E A" and sym: "sym E" and e: "(x, y) \<in> E" and x: "x \<in> A \<or> y \<in> A"
  shows "conn E (A \<union> {x, y})"
proof -
  have symr: "sym (E\<^sup>*)" using sym by (rule sym_rtrancl)
  have xy: "(x, y) \<in> E\<^sup>*" "(y, x) \<in> E\<^sup>*"
    using e sym by (auto dest: symD)
  have reach: "(a, x) \<in> E\<^sup>* \<and> (a, y) \<in> E\<^sup>*" if "a \<in> A" for a
  proof -
    from x show ?thesis
    proof
      assume "x \<in> A"
      with c that have "(a, x) \<in> E\<^sup>*" by (simp add: conn_def)
      with xy show ?thesis by (meson rtrancl_trans)
    next
      assume "y \<in> A"
      with c that have "(a, y) \<in> E\<^sup>*" by (simp add: conn_def)
      with xy show ?thesis by (meson rtrancl_trans)
    qed
  qed
  show ?thesis
    unfolding conn_def
  proof (intro ballI)
    fix a b assume a: "a \<in> A \<union> {x, y}" and b: "b \<in> A \<union> {x, y}"
    consider "a \<in> A" "b \<in> A" | "a \<in> A" "b \<in> {x, y}" | "a \<in> {x, y}" "b \<in> A"
      | "a \<in> {x, y}" "b \<in> {x, y}" using a b by blast
    then show "(a, b) \<in> E\<^sup>*"
    proof cases
      case 1 with c show ?thesis by (simp add: conn_def)
    next
      case 2 with reach show ?thesis by blast
    next
      case 3
      with reach have "(b, a) \<in> E\<^sup>*" by blast
      with symr show ?thesis by (meson symD)
    next
      case 4 with xy show ?thesis by auto
    qed
  qed
qed

lemma split_pass_props:
  assumes "split_pass ca cp un rest = (ca', cp', un')"
  shows "\<exists>sel uns. cp' = cp @ sel \<and> un' = un @ uns \<and> ca' = ca \<union> atoms_of sel
           \<and> set sel \<union> set uns = set rest"
  using assms
proof (induction rest arbitrary: ca cp un)
  case Nil
  then show ?case by auto
next
  case (Cons r rest)
  show ?case
  proof (cases "ca \<inter> {fst r, snd r} \<noteq> {}")
    case True
    with Cons.prems
    have "split_pass (ca \<union> {fst r, snd r}) (cp @ [r]) un rest = (ca', cp', un')"
      by (simp add: Let_def)
    from Cons.IH [OF this] obtain sel uns where
      "cp' = (cp @ [r]) @ sel" "un' = un @ uns" "ca' = (ca \<union> {fst r, snd r}) \<union> atoms_of sel"
      "set sel \<union> set uns = set rest" by blast
    then have "cp' = cp @ (r # sel) \<and> un' = un @ uns \<and> ca' = ca \<union> atoms_of (r # sel)
           \<and> set (r # sel) \<union> set uns = set (r # rest)" by auto
    then show ?thesis by blast
  next
    case False
    with Cons.prems have "split_pass ca cp (un @ [r]) rest = (ca', cp', un')"
      by (simp add: Let_def)
    from Cons.IH [OF this] obtain sel uns where
      "cp' = cp @ sel" "un' = (un @ [r]) @ uns" "ca' = ca \<union> atoms_of sel"
      "set sel \<union> set uns = set rest" by blast
    then have "cp' = cp @ sel \<and> un' = un @ (r # uns) \<and> ca' = ca \<union> atoms_of sel
           \<and> set sel \<union> set (r # uns) = set (r # rest)" by auto
    then show ?thesis by blast
  qed
qed

lemma split_pass_conn:
  assumes "split_pass ca cp un rest = (ca', cp', un')"
    and "conn E ca" and "sym E" and "set rest \<subseteq> E"
  shows "conn E ca'"
  using assms
proof (induction rest arbitrary: ca cp un)
  case Nil
  then show ?case by simp
next
  case (Cons r rest)
  show ?case
  proof (cases "ca \<inter> {fst r, snd r} \<noteq> {}")
    case True
    from Cons.prems(4) have e: "(fst r, snd r) \<in> E" by simp
    from True have "fst r \<in> ca \<or> snd r \<in> ca" by blast
    from conn_insert_edge [OF Cons.prems(2,3) e this]
    have c: "conn E (ca \<union> {fst r, snd r})" .
    from Cons.prems(1) True
    have "split_pass (ca \<union> {fst r, snd r}) (cp @ [r]) un rest = (ca', cp', un')"
      by (simp add: Let_def)
    from Cons.IH [OF this c Cons.prems(3)] Cons.prems(4) show ?thesis by simp
  next
    case False
    with Cons.prems(1) have "split_pass ca cp (un @ [r]) rest = (ca', cp', un')"
      by (simp add: Let_def)
    from Cons.IH [OF this Cons.prems(2,3)] Cons.prems(4) show ?thesis by simp
  qed
qed

lemma split_pass_fix:
  assumes "split_pass ca cp un rest = (ca', cp', un')"
    and "length un' = length un + length rest"
  shows "ca' = ca \<and> cp' = cp \<and> (\<forall>r \<in> set rest. ca \<inter> {fst r, snd r} = {})"
  using assms
proof (induction rest arbitrary: ca cp un)
  case Nil
  then show ?case by simp
next
  case (Cons r rest)
  show ?case
  proof (cases "ca \<inter> {fst r, snd r} \<noteq> {}")
    case True
    with Cons.prems(1)
    have "split_pass (ca \<union> {fst r, snd r}) (cp @ [r]) un rest = (ca', cp', un')"
      by (simp add: Let_def)
    from split_pass_length [OF this] Cons.prems(2) show ?thesis by simp
  next
    case False
    with Cons.prems(1) have sp: "split_pass ca cp (un @ [r]) rest = (ca', cp', un')"
      by (simp add: Let_def)
    from Cons.IH [OF sp] Cons.prems(2) False show ?thesis by simp
  qed
qed

lemma split_loop_props:
  assumes "split_loop ca cp rest = (cp', un)"
    and "ca = atoms_of cp" and "conn E ca" and "sym E" and "set rest \<subseteq> E"
  shows "set cp' \<union> set un = set cp \<union> set rest \<and> conn E (atoms_of cp')
       \<and> atoms_of cp' \<inter> atoms_of un = {} \<and> length cp \<le> length cp'"
  using assms
proof (induction ca cp rest rule: split_loop.induct)
  case (1 ca cp rest)
  obtain ca1 cp1 un1 where sp: "split_pass ca cp [] rest = (ca1, cp1, un1)"
    by (cases "split_pass ca cp [] rest") auto
  from split_pass_props [OF sp] obtain sel where
    cp1: "cp1 = cp @ sel" and ca1: "ca1 = ca \<union> atoms_of sel"
    and part: "set sel \<union> set un1 = set rest" by auto
  from ca1 cp1 "1.prems"(2) have ca1': "ca1 = atoms_of cp1" by simp
  from split_pass_conn [OF sp "1.prems"(3,4,5)] have c1: "conn E ca1" .
  show ?case
  proof (cases "length un1 = length rest")
    case True
    with "1.prems"(1) sp have res: "cp' = cp1" "un = un1"
      by (simp_all add: split_loop.simps [of ca cp rest])
    from split_pass_fix [OF sp] True
    have fx: "ca1 = ca" "cp1 = cp" "\<forall>r \<in> set rest. ca \<inter> {fst r, snd r} = {}" by simp_all
    from fx(2) cp1 have "sel = []" by simp
    with part have un1: "set un1 = set rest" by simp
    have "a \<notin> ca" if "a \<in> atoms_of un1" for a
    proof -
      from that un1 obtain r where "r \<in> set rest" "a \<in> {fst r, snd r}"
        by (auto simp: atoms_of_def)
      with fx(3) show ?thesis by blast
    qed
    with "1.prems"(2) have "atoms_of cp \<inter> atoms_of un1 = {}" by blast
    with res fx c1 ca1' un1 show ?thesis by simp
  next
    case False
    with "1.prems"(1) sp have rec: "split_loop ca1 cp1 un1 = (cp', un)"
      by (simp add: split_loop.simps [of ca cp rest])
    from part "1.prems"(5) have sub: "set un1 \<subseteq> E" by blast
    from "1.IH" [OF sp [symmetric] refl False rec ca1' c1 "1.prems"(4) sub]
    have "set cp' \<union> set un = set cp1 \<union> set un1" "conn E (atoms_of cp')"
      "atoms_of cp' \<inter> atoms_of un = {}" "length cp1 \<le> length cp'" by simp_all
    with cp1 part show ?thesis by auto
  qed
qed

lemma conn_pair: "sym E \<Longrightarrow> (a, b) \<in> E \<Longrightarrow> conn E {a, b}"
  by (auto simp: conn_def dest: symD)

lemma split_pairs_props:
  assumes "split_pairs pairs = Inr (cp', un)" and "sym E" and "set pairs \<subseteq> E"
  shows "set cp' \<union> set un = set pairs \<and> conn E (atoms_of cp')
       \<and> atoms_of cp' \<inter> atoms_of un = {} \<and> cp' \<noteq> []"
proof -
  from assms(1) obtain first rest where p: "pairs = first # rest"
    and sl: "split_loop {fst first, snd first} [first] rest = (cp', un)"
    by (auto simp: split_pairs_def split: list.splits)
  from assms(3) p have e: "(fst first, snd first) \<in> E" "set rest \<subseteq> E" by auto
  have "{fst first, snd first} = atoms_of [first]" by simp
  from split_loop_props [OF sl this conn_pair [OF assms(2) e(1)] assms(2) e(2)] p
  show ?thesis by auto
qed

lemma split_pairs_total: "pairs \<noteq> [] \<Longrightarrow> \<exists>r. split_pairs pairs = Inr r"
  by (cases pairs) (auto simp: split_pairs_def)

lemma fragments_loop_props:
  assumes "pairs \<noteq> []" and "sym E" and "set pairs \<subseteq> E"
  shows "\<exists>G. fragments_loop pairs F = Inr (F @ G) \<and> fragmentation E pairs G"
  using assms
proof (induction pairs F rule: fragments_loop.induct)
  case (1 pairs F)
  from split_pairs_total [OF "1.prems"(1)] obtain cp' un
    where sp: "split_pairs pairs = Inr (cp', un)" by (cases "split_pairs pairs") auto
  from split_pairs_props [OF sp "1.prems"(2,3)]
  have p: "set cp' \<union> set un = set pairs" "conn E (atoms_of cp')"
    "atoms_of cp' \<inter> atoms_of un = {}" "cp' \<noteq> []" by simp_all
  show ?case
  proof (cases "un = []")
    case True
    with sp have "fragments_loop pairs F = Inr (F @ [cp'])"
      by (simp add: fragments_loop.simps [of pairs F])
    moreover from True p have "fragmentation E pairs [cp']"
      by (simp add: fragmentation_def)
    ultimately show ?thesis by blast
  next
    case False
    from p(1) "1.prems"(3) have sub: "set un \<subseteq> E" by blast
    from "1.IH" [OF sp refl refl False False "1.prems"(2) sub] obtain G'
      where r: "fragments_loop un (F @ [cp']) = Inr ((F @ [cp']) @ G')"
        and f: "fragmentation E un G'" by blast
    from sp False r have "fragments_loop pairs F = Inr (F @ (cp' # G'))"
      by (simp add: fragments_loop.simps [of pairs F])
    moreover have "fragmentation E pairs (cp' # G')"
    proof -
      have "atoms_of cp' \<inter> atoms_of g = {}" if "g \<in> set G'" for g
      proof -
        from f that have "set g \<subseteq> set un" by (auto simp: fragmentation_def)
        from atoms_of_mono [OF this] p(3) show ?thesis by blast
      qed
      with f p show ?thesis by (auto simp: fragmentation_def)
    qed
    ultimately show ?thesis by blast
  qed
qed

lemma molecule_fragments_props:
  assumes "sym E" and "set (atom_pairs m) \<subseteq> E"
  shows "\<exists>G. molecule_fragments m = Inr G \<and> fragmentation E (atom_pairs m) G"
proof (cases "atom_pairs m")
  case Nil
  then show ?thesis by (simp add: molecule_fragments_def fragmentation_def)
next
  case (Cons p ps)
  show ?thesis
  proof (cases ps)
    case Nil
    with Cons assms have "conn E (atoms_of [p])"
      using conn_pair [of E "fst p" "snd p"] by simp
    with Cons Nil show ?thesis by (simp add: molecule_fragments_def fragmentation_def)
  next
    case (Cons q qs)
    with \<open>atom_pairs m = p # ps\<close> have ne: "atom_pairs m \<noteq> []" by simp
    from fragments_loop_props [OF ne assms, of "[]"] Cons \<open>atom_pairs m = p # ps\<close>
    show ?thesis by (simp add: molecule_fragments_def)
  qed
qed

lemma pair_rel_sym: "sym (pair_rel pairs)"
  by (auto simp: pair_rel_def sym_def)

lemma pair_rel_sub: "set pairs \<subseteq> pair_rel pairs"
  by (auto simp: pair_rel_def)

lemma atoms_of_nonempty: "f \<noteq> [] \<Longrightarrow> atoms_of f \<noteq> {}"
  by (cases f) auto

lemma disjoint_frags_eq:
  "disjoint_frags G \<Longrightarrow> f \<in> set G \<Longrightarrow> g \<in> set G \<Longrightarrow> atoms_of f \<inter> atoms_of g \<noteq> {} \<Longrightarrow> f = g"
proof (induction G)
  case Nil
  then show ?case by simp
next
  case (Cons h G)
  then show ?case by (auto simp: Int_commute)
qed

lemma disjoint_frags_distinct:
  "disjoint_frags G \<Longrightarrow> \<forall>f \<in> set G. f \<noteq> [] \<Longrightarrow> distinct (map atoms_of G)"
proof (induction G)
  case Nil
  then show ?case by simp
next
  case (Cons h G)
  have "atoms_of h \<noteq> atoms_of g" if "g \<in> set G" for g
  proof
    assume e: "atoms_of h = atoms_of g"
    from Cons.prems(1) that have "atoms_of h \<inter> atoms_of g = {}" by simp
    with e have "atoms_of h = {}" by simp
    with Cons.prems(2) atoms_of_nonempty [of h] show False by simp
  qed
  with Cons show ?case by auto
qed

lemma fragment_closed:
  assumes fr: "fragmentation (pair_rel pairs) pairs G" and f: "f \<in> set G"
    and x: "x \<in> atoms_of f" and e: "(x, y) \<in> (pair_rel pairs)\<^sup>*"
  shows "y \<in> atoms_of f"
  using e x
proof (induction rule: rtrancl_induct)
  case base
  then show ?case .
next
  case (step y z)
  then have y: "y \<in> atoms_of f" by simp
  from step.hyps(2) have "(y, z) \<in> set pairs \<or> (z, y) \<in> set pairs"
    by (simp add: pair_rel_def)
  then obtain p where p: "p \<in> set pairs" "{fst p, snd p} = {y, z}"
  proof
    assume "(y, z) \<in> set pairs"
    then show ?thesis using that [of "(y, z)"] by simp
  next
    assume "(z, y) \<in> set pairs"
    then show ?thesis using that [of "(z, y)"] by (simp add: insert_commute)
  qed
  from fr p(1) obtain g where g: "g \<in> set G" "p \<in> set g"
    by (auto simp: fragmentation_def)
  from g(2) p(2) have yz: "y \<in> atoms_of g" "z \<in> atoms_of g"
    by (auto simp: atoms_of_def)
  from fr have "disjoint_frags G" by (simp add: fragmentation_def)
  from disjoint_frags_eq [OF this f g(1)] y yz(1) have "f = g" by blast
  with yz(2) show ?case by simp
qed

lemma fragment_class:
  assumes fr: "fragmentation (pair_rel pairs) pairs G" and f: "f \<in> set G"
    and a: "a \<in> atoms_of f"
  shows "{b. (a, b) \<in> (pair_rel pairs)\<^sup>*} = atoms_of f"
proof
  show "{b. (a, b) \<in> (pair_rel pairs)\<^sup>*} \<subseteq> atoms_of f"
    using fragment_closed [OF fr f a] by blast
next
  from fr f have "conn (pair_rel pairs) (atoms_of f)" by (simp add: fragmentation_def)
  with a show "atoms_of f \<subseteq> {b. (a, b) \<in> (pair_rel pairs)\<^sup>*}"
    by (auto simp: conn_def)
qed

lemma fragmentation_atoms:
  assumes "fragmentation E pairs G"
  shows "atoms_of pairs = (\<Union>f \<in> set G. atoms_of f)"
proof -
  from assms have s: "set pairs = (\<Union>f \<in> set G. set f)"
    by (simp add: fragmentation_def)
  show ?thesis unfolding atoms_of_def s by blast
qed

lemma fragments_count:
  assumes fr: "fragmentation (pair_rel (atom_pairs m)) (atom_pairs m) G"
  shows "bonded_fragments m = atoms_of ` set G" and "card (bonded_fragments m) = length G"
proof -
  let ?E = "pair_rel (atom_pairs m)"
  show eq: "bonded_fragments m = atoms_of ` set G"
  proof
    show "bonded_fragments m \<subseteq> atoms_of ` set G"
    proof
      fix C assume "C \<in> bonded_fragments m"
      then obtain a where a: "a \<in> atoms_of (atom_pairs m)" and C: "C = {b. (a, b) \<in> ?E\<^sup>*}"
        by (auto simp: bonded_fragments_def)
      from a fragmentation_atoms [OF fr] obtain f where f: "f \<in> set G" "a \<in> atoms_of f"
        by auto
      from fragment_class [OF fr f] C f(1) show "C \<in> atoms_of ` set G" by simp
    qed
  next
    show "atoms_of ` set G \<subseteq> bonded_fragments m"
    proof
      fix C assume "C \<in> atoms_of ` set G"
      then obtain f where f: "f \<in> set G" and C: "C = atoms_of f" by auto
      from fr f have "f \<noteq> []" by (simp add: fragmentation_def)
      from atoms_of_nonempty [OF this] obtain a where a: "a \<in> atoms_of f" by auto
      with f fragmentation_atoms [OF fr] have "a \<in> atoms_of (atom_pairs m)" by auto
      moreover from fragment_class [OF fr f a] C have "C = {b. (a, b) \<in> ?E\<^sup>*}" by simp
      ultimately show "C \<in> bonded_fragments m" by (auto simp: bonded_fragments_def)
    qed
  qed
  from fr have "distinct (map atoms_of G)"
    by (intro disjoint_frags_distinct) (auto simp: fragmentation_def)
  from distinct_card [OF this] eq show "card (bonded_fragments m) = length G" by simp
qed

lemma bonds_set_fields [simp]:
  "atoms (bonds_set k b m) = atoms m"
  "atom_pairs (bonds_set k b m) = atom_pairs m"
  "options (bonds_set k b m) = options m"
  "bond_keys (bonds_set k b m) = add_key k (bond_keys m)"
  "heap (bonds_set k b m) = (heap m)(Key (fst k) (snd k) \<mapsto> Bond b)"
  by (simp_all add: bonds_set_def add_key_def)

lemma neighbor_rel_link:
  assumes "map_of as x \<noteq> None" and "map_of as y \<noteq> None"
  shows "{(a, b). \<exists>v. map_of (AList.map_entry y (\<lambda>a. a\<lparr>neighbors := neighbors a @ [x]\<rparr>)
            (AList.map_entry x (\<lambda>a. a\<lparr>neighbors := neighbors a @ [y]\<rparr>) as)) a = Some v
            \<and> b \<in> set (neighbors v)}
       = {(a, b). \<exists>v. map_of as a = Some v \<and> b \<in> set (neighbors v)} \<union> {(x, y), (y, x)}"
  using assms
  by (auto simp: map_of_map_entry split: option.splits if_splits)

lemma link_atoms_props:
  assumes "x \<in> fst ` set (atoms m)" and "y \<in> fst ` set (atoms m)"
  shows "\<exists>m' b. link_atoms ind x y m = Inr m'
       \<and> fst ` set (atoms m') = fst ` set (atoms m)
       \<and> atom_pairs m' = atom_pairs m
       \<and> neighbor_rel m' = neighbor_rel m \<union> {(x, y), (y, x)}
       \<and> bond_keys m' = add_key (y, x) (add_key (x, y) (bond_keys m))
       \<and> heap m' = (heap m)(Key x y \<mapsto> Bond b, Key y x \<mapsto> Bond (invert b))
       \<and> bond_type b = Some (Str ''link'') \<and> tikz_styles b = {}"
proof -
  from assms obtain sa ea where sa: "map_of (atoms m) x = Some sa" and ea: "map_of (atoms m) y = Some ea"
    by (metis domD dom_map_of_conv_image_fst)
  let ?b = "set_link (Bond_init ind (options m) sa ea None 0)"
  let ?as = "AList.map_entry y (\<lambda>a. a\<lparr>neighbors := neighbors a @ [x]\<rparr>)
               (AList.map_entry x (\<lambda>a. a\<lparr>neighbors := neighbors a @ [y]\<rparr>) (atoms m))"
  let ?m' = "(bonds_set (y, x) (invert ?b) (bonds_set (x, y) ?b m))\<lparr>atoms := ?as\<rparr>"
  have r: "link_atoms ind x y m = Inr ?m'"
    using sa ea by (simp add: link_atoms_def Let_def)
  have n: "neighbor_rel ?m' = neighbor_rel m \<union> {(x, y), (y, x)}"
    unfolding neighbor_rel_def using neighbor_rel_link [of "atoms m" x y] sa ea by simp
  have t: "bond_type ?b = Some (Str ''link'') \<and> tikz_styles ?b = {}"
    by (simp add: set_link_def)
  show ?thesis
    apply (rule exI [of _ ?m'])
    apply (rule exI [of _ ?b])
    using r n t by (simp add: dom_map_entry)
qed

lemma both_simps [simp]:
  "both [] = []"
  "both (l # ls) = (fst l, snd l) # (snd l, fst l) # both ls"
  by (simp_all add: both_def)

lemma is_link_invert: "is_link b \<Longrightarrow> is_link (invert b)"
  by (simp add: is_link_def invert_def Let_def)

lemma link_fragments_eq:
  "\<forall>f \<in> set G. f \<noteq> [] \<Longrightarrow> link_fragments ind G m = link_list ind (frag_links G) m"
proof (induction G arbitrary: m rule: frag_links.induct)
  case (1 h t fs)
  then show ?case by (simp add: Let_def split: sum.splits)
qed simp_all

lemma link_orphans_eq: "link_orphans ind a us m = link_list ind (map (Pair a) us) m"
  by (induction us arbitrary: m) (simp_all split: sum.splits)

lemma length_add_key: "k \<notin> set ks \<Longrightarrow> length (add_key k ks) = Suc (length ks)"
  by (simp add: add_key_def)

lemma set_add_key [simp]: "set (add_key k ks) = insert k (set ks)"
  by (auto simp: add_key_def)

lemma link_list_props:
  assumes "\<forall>l \<in> set ls. fst l \<in> fst ` set (atoms m) \<and> snd l \<in> fst ` set (atoms m)"
  shows "\<exists>m'. link_list ind ls m = Inr m'
       \<and> fst ` set (atoms m') = fst ` set (atoms m)
       \<and> atom_pairs m' = atom_pairs m
       \<and> neighbor_rel m' = neighbor_rel m \<union> set (both ls)
       \<and> set (bond_keys m') = set (bond_keys m) \<union> set (both ls)
       \<and> (distinct (both ls) \<and> set (both ls) \<inter> set (bond_keys m) = {}
            \<longrightarrow> length (bond_keys m') = length (bond_keys m) + 2 * length ls)
       \<and> (\<forall>k \<in> set (both ls). \<exists>b. heap m' (Key (fst k) (snd k)) = Some (Bond b) \<and> is_link b)
       \<and> (\<forall>r. r \<notin> (\<lambda>k. Key (fst k) (snd k)) ` set (both ls) \<longrightarrow> heap m' r = heap m r)"
  using assms
proof (induction ls arbitrary: m)
  case Nil
  then show ?case by simp
next
  case (Cons l ls)
  obtain x y where l: "l = (x, y)" by (cases l)
  from Cons.prems l have xy: "x \<in> fst ` set (atoms m)" "y \<in> fst ` set (atoms m)" by simp_all
  from link_atoms_props [OF xy, of ind] obtain m1 b where
    r1: "link_atoms ind x y m = Inr m1"
    and k1: "fst ` set (atoms m1) = fst ` set (atoms m)"
    and p1: "atom_pairs m1 = atom_pairs m"
    and n1: "neighbor_rel m1 = neighbor_rel m \<union> {(x, y), (y, x)}"
    and b1: "bond_keys m1 = add_key (y, x) (add_key (x, y) (bond_keys m))"
    and h1: "heap m1 = (heap m)(Key x y \<mapsto> Bond b, Key y x \<mapsto> Bond (invert b))"
    and t1: "is_link b" unfolding is_link_def by blast
  from Cons.prems k1
  have "\<forall>l \<in> set ls. fst l \<in> fst ` set (atoms m1) \<and> snd l \<in> fst ` set (atoms m1)" by simp
  from Cons.IH [OF this] obtain m' where
    r: "link_list ind ls m1 = Inr m'"
    and k: "fst ` set (atoms m') = fst ` set (atoms m1)"
    and p: "atom_pairs m' = atom_pairs m1"
    and n: "neighbor_rel m' = neighbor_rel m1 \<union> set (both ls)"
    and s: "set (bond_keys m') = set (bond_keys m1) \<union> set (both ls)"
    and c: "distinct (both ls) \<and> set (both ls) \<inter> set (bond_keys m1) = {}
            \<longrightarrow> length (bond_keys m') = length (bond_keys m1) + 2 * length ls"
    and hl: "\<forall>k \<in> set (both ls). \<exists>b. heap m' (Key (fst k) (snd k)) = Some (Bond b) \<and> is_link b"
    and hf: "\<forall>r. r \<notin> (\<lambda>k. Key (fst k) (snd k)) ` set (both ls) \<longrightarrow> heap m' r = heap m1 r"
    by blast
  have res: "link_list ind (l # ls) m = Inr m'" using r1 r l by simp
  have cnt: "length (bond_keys m') = length (bond_keys m) + 2 * length (l # ls)"
    if d: "distinct (both (l # ls))" and f: "set (both (l # ls)) \<inter> set (bond_keys m) = {}"
  proof -
    from d f l have "(x, y) \<notin> set (bond_keys m)" "(y, x) \<notin> set (add_key (x, y) (bond_keys m))"
      by auto
    with b1 have "length (bond_keys m1) = length (bond_keys m) + 2"
      by (simp add: length_add_key)
    moreover from d f l b1 have "distinct (both ls) \<and> set (both ls) \<inter> set (bond_keys m1) = {}"
      by auto
    ultimately show ?thesis using c by simp
  qed
  have links: "\<exists>b. heap m' (Key (fst k) (snd k)) = Some (Bond b) \<and> is_link b"
    if "k \<in> set (both (l # ls))" for k
  proof (cases "k \<in> set (both ls)")
    case True
    with hl show ?thesis by blast
  next
    case False
    then have nr: "Key (fst k) (snd k) \<notin> (\<lambda>k. Key (fst k) (snd k)) ` set (both ls)" by force
    from False that l have "k = (x, y) \<or> k = (y, x)" by simp
    then have "\<exists>b. heap m1 (Key (fst k) (snd k)) = Some (Bond b) \<and> is_link b"
      using h1 t1 is_link_invert [OF t1] by auto
    with hf nr show ?thesis by simp
  qed
  have frame: "heap m' r = heap m r"
    if "r \<notin> (\<lambda>k. Key (fst k) (snd k)) ` set (both (l # ls))" for r
  proof -
    from that l have a: "r \<notin> (\<lambda>k. Key (fst k) (snd k)) ` set (both ls)" "r \<noteq> Key x y" "r \<noteq> Key y x"
      by auto
    with hf h1 show ?thesis by simp
  qed
  show ?case
    apply (rule exI [of _ m'])
    using res k k1 p p1 n n1 s b1 l cnt links frame by auto
qed

lemma conn_mono: "E \<subseteq> S \<Longrightarrow> conn E A \<Longrightarrow> conn S A"
  unfolding conn_def using rtrancl_mono [of E S] by blast

lemma conn_union:
  assumes "conn S A" and "conn S B" and "sym S" and "(x, y) \<in> S" and "x \<in> A" and "y \<in> B"
  shows "conn S (A \<union> B)"
proof -
  have symr: "sym (S\<^sup>*)" using assms(3) by (rule sym_rtrancl)
  have ab: "(a, b) \<in> S\<^sup>*" if "a \<in> A" "b \<in> B" for a b
  proof -
    from assms(1) that(1) assms(5) have "(a, x) \<in> S\<^sup>*" by (simp add: conn_def)
    moreover from assms(4) have "(x, y) \<in> S\<^sup>*" by blast
    moreover from assms(2) that(2) assms(6) have "(y, b) \<in> S\<^sup>*" by (simp add: conn_def)
    ultimately show ?thesis by (meson rtrancl_trans)
  qed
  have ba: "(b, a) \<in> S\<^sup>*" if "a \<in> A" "b \<in> B" for a b
    using ab [OF that] symr by (meson symD)
  show ?thesis
    unfolding conn_def
  proof (intro ballI)
    fix a b assume "a \<in> A \<union> B" "b \<in> A \<union> B"
    then consider "a \<in> A" "b \<in> A" | "a \<in> A" "b \<in> B" | "a \<in> B" "b \<in> A" | "a \<in> B" "b \<in> B"
      by blast
    then show "(a, b) \<in> S\<^sup>*"
    proof cases
      case 1 with assms(1) show ?thesis by (simp add: conn_def)
    next
      case 2 with ab show ?thesis by blast
    next
      case 3 with ba show ?thesis by blast
    next
      case 4 with assms(2) show ?thesis by (simp add: conn_def)
    qed
  qed
qed

lemma last_in_atoms_of: "f \<noteq> [] \<Longrightarrow> snd (last f) \<in> atoms_of f"
  by (auto simp: atoms_of_def intro!: bexI [of _ "last f"])

lemma hd_in_atoms_of: "f \<noteq> [] \<Longrightarrow> fst (hd f) \<in> atoms_of f"
  by (auto simp: atoms_of_def intro!: bexI [of _ "hd f"])

lemma length_frag_links: "length (frag_links G) = length G - 1"
  by (induction G rule: frag_links.induct) simp_all

lemma frag_links_endpoints:
  "\<forall>f \<in> set G. f \<noteq> [] \<Longrightarrow> k \<in> set (both (frag_links G))
   \<Longrightarrow> fst k \<in> (\<Union>f \<in> set G. atoms_of f) \<and> snd k \<in> (\<Union>f \<in> set G. atoms_of f)"
proof (induction G rule: frag_links.induct)
  case (1 h t fs)
  from "1.prems"(1) have ne: "h \<noteq> []" "t \<noteq> []" by simp_all
  note e = last_in_atoms_of [OF ne(1)] hd_in_atoms_of [OF ne(2)]
  from "1.prems"(2) consider "k = (snd (last h), fst (hd t))" | "k = (fst (hd t), snd (last h))"
    | "k \<in> set (both (frag_links (t # fs)))" by auto
  then show ?case
  proof cases
    case 1 with e show ?thesis by simp
  next
    case 2 with e show ?thesis by simp
  next
    case 3
    with "1.IH" "1.prems"(1) show ?thesis by auto
  qed
qed simp_all

lemma frag_links_distinct:
  "disjoint_frags G \<Longrightarrow> \<forall>f \<in> set G. f \<noteq> [] \<Longrightarrow> distinct (both (frag_links G))"
proof (induction G rule: frag_links.induct)
  case (1 h t fs)
  from "1.prems"(2) have ne: "h \<noteq> []" "t \<noteq> []" by simp_all
  let ?x = "snd (last h)" and ?y = "fst (hd t)"
  have x: "?x \<in> atoms_of h" and y: "?y \<in> atoms_of t"
    using last_in_atoms_of [OF ne(1)] hd_in_atoms_of [OF ne(2)] .
  from "1.prems"(1) have dis: "\<forall>g \<in> set (t # fs). atoms_of h \<inter> atoms_of g = {}" by simp
  with x have xn: "?x \<notin> (\<Union>f \<in> set (t # fs). atoms_of f)" by blast
  from dis x y have "?x \<noteq> ?y" by auto
  moreover have "(?x, ?y) \<notin> set (both (frag_links (t # fs)))"
    "(?y, ?x) \<notin> set (both (frag_links (t # fs)))"
    using frag_links_endpoints [of "t # fs"] "1.prems"(2) xn by fastforce+
  moreover from "1.IH" "1.prems" have "distinct (both (frag_links (t # fs)))" by simp
  ultimately show ?case by simp
qed simp_all

lemma frag_links_cross:
  "disjoint_frags G \<Longrightarrow> \<forall>f \<in> set G. f \<noteq> [] \<Longrightarrow> k \<in> set (both (frag_links G))
   \<Longrightarrow> \<exists>f \<in> set G. \<exists>g \<in> set G. fst k \<in> atoms_of f \<and> snd k \<in> atoms_of g
         \<and> atoms_of f \<inter> atoms_of g = {}"
proof (induction G rule: frag_links.induct)
  case (1 h t fs)
  from "1.prems"(2) have ne: "h \<noteq> []" "t \<noteq> []" by simp_all
  let ?x = "snd (last h)" and ?y = "fst (hd t)"
  have x: "?x \<in> atoms_of h" and y: "?y \<in> atoms_of t"
    using last_in_atoms_of [OF ne(1)] hd_in_atoms_of [OF ne(2)] .
  from "1.prems"(1) have dis: "atoms_of h \<inter> atoms_of t = {}" by simp
  from "1.prems"(3) consider "k = (?x, ?y)" | "k = (?y, ?x)"
    | "k \<in> set (both (frag_links (t # fs)))" by auto
  then show ?case
  proof cases
    case 1
    with x y dis show ?thesis by (intro bexI [of _ h] bexI [of _ t]) auto
  next
    case 2
    with x y dis show ?thesis by (intro bexI [of _ t] bexI [of _ h]) auto
  next
    case 3
    from "1.prems"(1) have d': "disjoint_frags (t # fs)" by simp
    from "1.prems"(2) have ne': "\<forall>f \<in> set (t # fs). f \<noteq> []" by simp
    from "1.IH" [OF d' ne' 3] obtain f g where "f \<in> set (t # fs)" "g \<in> set (t # fs)"
      "fst k \<in> atoms_of f \<and> snd k \<in> atoms_of g \<and> atoms_of f \<inter> atoms_of g = {}"
      by blast
    then show ?thesis by (intro bexI [of _ f] bexI [of _ g]) auto
  qed
qed simp_all

lemma frag_links_fresh:
  assumes fr: "fragmentation (pair_rel pairs) pairs G" and k: "k \<in> set (both (frag_links G))"
  shows "k \<notin> pair_rel pairs"
proof
  assume in_rel: "k \<in> pair_rel pairs"
  from fr have d: "disjoint_frags G" and ne: "\<forall>f \<in> set G. f \<noteq> []"
    by (simp_all add: fragmentation_def)
  from frag_links_cross [OF d ne k] obtain f g where fg: "f \<in> set G" "g \<in> set G"
    "fst k \<in> atoms_of f" "snd k \<in> atoms_of g" "atoms_of f \<inter> atoms_of g = {}" by blast
  from in_rel have "(fst k, snd k) \<in> (pair_rel pairs)\<^sup>*" by auto
  from fragment_closed [OF fr fg(1,3) this] fg(4,5) show False by blast
qed

lemma chain_conn:
  "sym S \<Longrightarrow> \<forall>f \<in> set G. f \<noteq> [] \<and> conn S (atoms_of f) \<Longrightarrow> set (frag_links G) \<subseteq> S
   \<Longrightarrow> conn S (\<Union>f \<in> set G. atoms_of f)"
proof (induction G rule: frag_links.induct)
  case (1 h t fs)
  from "1.prems"(2) have ne: "h \<noteq> []" "t \<noteq> []" by simp_all
  let ?x = "snd (last h)" and ?y = "fst (hd t)"
  have x: "?x \<in> atoms_of h" and y: "?y \<in> (\<Union>f \<in> set (t # fs). atoms_of f)"
    using last_in_atoms_of [OF ne(1)] hd_in_atoms_of [OF ne(2)] by simp_all
  from "1.IH" "1.prems" have c: "conn S (\<Union>f \<in> set (t # fs). atoms_of f)" by simp
  from "1.prems"(2) have ch: "conn S (atoms_of h)" by simp
  from "1.prems"(3) have e: "(?x, ?y) \<in> S" by simp
  from conn_union [OF ch c "1.prems"(1) e x y] show ?case by simp
qed (simp_all add: conn_def)

lemma link_list_append:
  "link_list ind (a @ b) m
   = (case link_list ind a m of Inl e \<Rightarrow> Inl e | Inr m1 \<Rightarrow> link_list ind b m1)"
  by (induction a arbitrary: m) (simp_all split: sum.splits)

lemma unbonded_atoms_props:
  "set (unbonded_atoms m) = orphan_atoms m" "distinct (unbonded_atoms m)"
  "length (unbonded_atoms m) = card (orphan_atoms m)"
proof -
  have e: "unbonded_atoms m = sorted_list_of_set (orphan_atoms m)"
    by (simp add: unbonded_atoms_def orphan_atoms_def atoms_of_def Let_def)
  have f: "finite (orphan_atoms m)" by (simp add: orphan_atoms_def)
  from e f show "set (unbonded_atoms m) = orphan_atoms m" "distinct (unbonded_atoms m)"
    "length (unbonded_atoms m) = card (orphan_atoms m)" by simp_all
qed

lemma unbonded_atoms_cong:
  "fst ` set (atoms m1) = fst ` set (atoms m) \<Longrightarrow> atom_pairs m1 = atom_pairs m
   \<Longrightarrow> unbonded_atoms m1 = unbonded_atoms m"
  by (simp add: unbonded_atoms_def Let_def)

lemma frag_links_short: "length G \<le> 1 \<Longrightarrow> frag_links G = []"
  by (cases G rule: frag_links.cases) simp_all

lemma connect_fragments_eq:
  assumes H1: "atoms_of (atom_pairs m) \<subseteq> fst ` set (atoms m)"
    and mf: "molecule_fragments m = Inr G"
    and fr: "fragmentation E (atom_pairs m) G"
  shows "connect_fragments ind m
         = link_list ind (frag_links G @ orphan_links G (unbonded_atoms m)) m"
proof -
  from fr have ne: "\<forall>f \<in> set G. f \<noteq> []" by (simp add: fragmentation_def)
  have step1: "(if length G > 1 then link_fragments ind G m else Inr m)
               = link_list ind (frag_links G) m"
    using link_fragments_eq [OF ne, of ind m] frag_links_short [of G] by auto
  have ends: "\<forall>l \<in> set (frag_links G). fst l \<in> fst ` set (atoms m) \<and> snd l \<in> fst ` set (atoms m)"
  proof
    fix l assume "l \<in> set (frag_links G)"
    then have "(fst l, snd l) \<in> set (both (frag_links G))" by (auto simp: both_def)
    from frag_links_endpoints [OF ne this] fragmentation_atoms [OF fr] H1
    show "fst l \<in> fst ` set (atoms m) \<and> snd l \<in> fst ` set (atoms m)" by auto
  qed
  from link_list_props [OF ends, of ind] obtain m1 where
    r1: "link_list ind (frag_links G) m = Inr m1"
    and k1: "fst ` set (atoms m1) = fst ` set (atoms m)"
    and p1: "atom_pairs m1 = atom_pairs m" by blast
  note u = unbonded_atoms_cong [OF k1 p1]
  have step2: "(let unbonded = unbonded_atoms m1
                in if unbonded \<noteq> [] then
                     (if G \<noteq> [] then
                        (if last G = [] then Inl IndexError
                         else link_orphans ind (snd (last (last G))) unbonded m1)
                      else link_orphans ind (hd unbonded) (tl unbonded) m1)
                   else Inr m1)
               = link_list ind (orphan_links G (unbonded_atoms m)) m1"
    using ne by (auto simp: u Let_def orphan_links_def link_orphans_eq)
  show ?thesis
    unfolding connect_fragments_def mf
    by (simp only: sum.case step1 r1 step2 link_list_append)
qed

lemma both_append: "both (a @ b) = both a @ both b"
  by (simp add: both_def)

lemma sym_both: "sym (set (both ls))"
  by (induction ls) (auto simp: sym_def)

lemma set_both_Pair: "set (both (map (Pair t) us)) = (Pair t ` set us) \<union> ((\<lambda>u. (u, t)) ` set us)"
  by (induction us) auto

lemma both_Pair_distinct: "distinct us \<Longrightarrow> t \<notin> set us \<Longrightarrow> distinct (both (map (Pair t) us))"
  by (induction us) (auto simp: set_both_Pair)

lemma pair_rel_atoms: "(a, b) \<in> pair_rel pairs \<Longrightarrow> a \<in> atoms_of pairs \<and> b \<in> atoms_of pairs"
  by (force simp: pair_rel_def atoms_of_def)

lemma conn_center:
  assumes "sym T" and "\<forall>a \<in> A. (t, a) \<in> T\<^sup>*"
  shows "conn T A"
  unfolding conn_def
proof (intro ballI)
  fix a b assume "a \<in> A" "b \<in> A"
  with assms(2) have "(t, a) \<in> T\<^sup>*" "(t, b) \<in> T\<^sup>*" by simp_all
  moreover from sym_rtrancl [OF assms(1)] \<open>(t, a) \<in> T\<^sup>*\<close> have "(a, t) \<in> T\<^sup>*" by (meson symD)
  ultimately show "(a, b) \<in> T\<^sup>*" by (meson rtrancl_trans)
qed

lemma orphan_links_props:
  assumes us: "set us \<inter> B = {}" "distinct us" and G: "G \<noteq> [] \<longrightarrow> snd (last (last G)) \<in> B"
    and ne: "G = [] \<longrightarrow> us \<noteq> []"
  shows "distinct (both (orphan_links G us))"
    and "\<forall>k \<in> set (both (orphan_links G us)). fst k \<in> set us \<or> snd k \<in> set us"
    and "\<forall>l \<in> set (orphan_links G us). fst l \<in> B \<union> set us \<and> snd l \<in> set us"
    and "int (length (orphan_links G us)) = (if G \<noteq> [] then int (length us) else int (length us) - 1)"
    and "\<exists>t \<in> B \<union> set us. (G \<noteq> [] \<longrightarrow> t \<in> B) \<and> (\<forall>u \<in> set us. u = t \<or> (t, u) \<in> set (both (orphan_links G us)))"
proof -
  show "distinct (both (orphan_links G us))"
  proof (cases "G = []")
    case True
    with ne obtain u us' where "us = u # us'" by (cases us) auto
    with us(2) True show ?thesis by (simp add: orphan_links_def both_Pair_distinct)
  next
    case False
    with G have "snd (last (last G)) \<in> B" by simp
    with us(1) have "snd (last (last G)) \<notin> set us" by blast
    with us(2) False show ?thesis by (simp add: orphan_links_def both_Pair_distinct)
  qed
  show "\<forall>k \<in> set (both (orphan_links G us)). fst k \<in> set us \<or> snd k \<in> set us"
    by (cases us) (auto simp: orphan_links_def set_both_Pair)
  show "\<forall>l \<in> set (orphan_links G us). fst l \<in> B \<union> set us \<and> snd l \<in> set us"
    using G by (cases us) (auto simp: orphan_links_def)
  show "int (length (orphan_links G us)) = (if G \<noteq> [] then int (length us) else int (length us) - 1)"
    using ne by (cases us) (auto simp: orphan_links_def)
  show "\<exists>t \<in> B \<union> set us. (G \<noteq> [] \<longrightarrow> t \<in> B) \<and> (\<forall>u \<in> set us. u = t \<or> (t, u) \<in> set (both (orphan_links G us)))"
  proof (cases "G = []")
    case True
    with ne obtain u us' where u: "us = u # us'" by (cases us) auto
    with True show ?thesis
      by (intro bexI [of _ u]) (auto simp: orphan_links_def set_both_Pair)
  next
    case False
    with G show ?thesis
      by (intro bexI [of _ "snd (last (last G))"]) (auto simp: orphan_links_def set_both_Pair)
  qed
qed

text \<open>
  Claim C5, as amended. Take a molecule with at least one atom whose atom pairs join atoms
  of the molecule, whose neighbour lists hold the bonded partners, and whose \<open>bonds\<close>
  dictionary has keys for bonded pairs only. Let K be the number of its bonded fragments
  and count its orphan atoms. Then \<open>connect_fragments\<close> returns, the \<open>bonds\<close> dictionary has
  gained exactly twice K - 1 plus the orphan count entries, the two orientations of each
  link, every new entry is an invisible link bond, and afterwards every atom is reached
  from every atom along neighbour lists.
\<close>

theorem connect_fragments_links:
  assumes H1: "atoms_of (atom_pairs m) \<subseteq> fst ` set (atoms m)"
    and H2: "pair_rel (atom_pairs m) \<subseteq> neighbor_rel m"
    and H3: "set (bond_keys m) \<subseteq> pair_rel (atom_pairs m)"
    and H4: "atoms m \<noteq> []"
  shows "\<exists>m'. connect_fragments ind m = Inr m'
       \<and> int (length (bond_keys m'))
           = int (length (bond_keys m))
             + 2 * (int (card (bonded_fragments m)) - 1 + int (card (orphan_atoms m)))
       \<and> (\<forall>k \<in> set (bond_keys m') - set (bond_keys m).
             \<exists>b. heap m' (Key (fst k) (snd k)) = Some (Bond b)
                \<and> bond_type b = Some (Str ''link'') \<and> tikz_styles b = {})
       \<and> fst ` set (atoms m') = fst ` set (atoms m)
       \<and> connected_molecule m'"
proof -
  let ?E = "pair_rel (atom_pairs m)"
  let ?K = "fst ` set (atoms m)"
  let ?B = "atoms_of (atom_pairs m)"
  let ?us = "unbonded_atoms m"
  from molecule_fragments_props [OF pair_rel_sym pair_rel_sub, of m] obtain G
    where mf: "molecule_fragments m = Inr G" and fr: "fragmentation ?E (atom_pairs m) G"
    by blast
  from fr have ne: "\<forall>f \<in> set G. f \<noteq> []" and dj: "disjoint_frags G"
    by (simp_all add: fragmentation_def)
  note BG = fragmentation_atoms [OF fr]
  note cnt = fragments_count(2) [OF fr]
  let ?L1 = "frag_links G" and ?L2 = "orphan_links G ?us"
  note ce = connect_fragments_eq [OF H1 mf fr, of ind]
  note up = unbonded_atoms_props [of m]
  have orph: "orphan_atoms m = ?K - ?B" by (simp add: orphan_atoms_def)
  have usB: "set ?us \<inter> ?B = {}" using up(1) orph by blast
  have KBu: "?K = ?B \<union> set ?us" using up(1) orph H1 by blast
  have Gt: "G \<noteq> [] \<longrightarrow> snd (last (last G)) \<in> ?B"
  proof
    assume g: "G \<noteq> []"
    then have "last G \<in> set G" by simp
    with ne last_in_atoms_of [of "last G"] BG show "snd (last (last G)) \<in> ?B" by blast
  qed
  have Gne: "G = [] \<longrightarrow> ?us \<noteq> []"
  proof
    assume "G = []"
    with BG have "?B = {}" by simp
    with KBu H4 show "?us \<noteq> []" by (cases "atoms m") auto
  qed
  note ol = orphan_links_props [OF usB up(2) Gt Gne]
  have e1: "\<forall>k \<in> set (both ?L1). fst k \<in> ?B \<and> snd k \<in> ?B"
    using frag_links_endpoints [OF ne] BG by blast
  have ends: "\<forall>l \<in> set (?L1 @ ?L2). fst l \<in> ?K \<and> snd l \<in> ?K"
  proof
    fix l assume "l \<in> set (?L1 @ ?L2)"
    then consider "l \<in> set ?L1" | "l \<in> set ?L2" by auto
    then show "fst l \<in> ?K \<and> snd l \<in> ?K"
    proof cases
      case 1
      then have "(fst l, snd l) \<in> set (both ?L1)" by (auto simp: both_def)
      with e1 KBu show ?thesis by auto
    next
      case 2
      with ol(3) KBu show ?thesis by blast
    qed
  qed
  from link_list_props [OF ends, of ind] ce obtain m' where
    r: "connect_fragments ind m = Inr m'"
    and k: "fst ` set (atoms m') = ?K"
    and n: "neighbor_rel m' = neighbor_rel m \<union> set (both (?L1 @ ?L2))"
    and s: "set (bond_keys m') = set (bond_keys m) \<union> set (both (?L1 @ ?L2))"
    and c: "distinct (both (?L1 @ ?L2)) \<and> set (both (?L1 @ ?L2)) \<inter> set (bond_keys m) = {}
            \<longrightarrow> length (bond_keys m') = length (bond_keys m) + 2 * length (?L1 @ ?L2)"
    and hl: "\<forall>k \<in> set (both (?L1 @ ?L2)).
               \<exists>b. heap m' (Key (fst k) (snd k)) = Some (Bond b) \<and> is_link b"
    by auto
  have d: "distinct (both (?L1 @ ?L2))"
  proof -
    have "set (both ?L1) \<inter> set (both ?L2) = {}"
      using e1 ol(2) usB by blast
    with frag_links_distinct [OF dj ne] ol(1) show ?thesis by (simp add: both_append)
  qed
  have f: "set (both (?L1 @ ?L2)) \<inter> set (bond_keys m) = {}"
  proof -
    have "k \<notin> ?E" if "k \<in> set (both ?L2)" for k
    proof
      assume "k \<in> ?E"
      then have "fst k \<in> ?B \<and> snd k \<in> ?B" using pair_rel_atoms [of "fst k" "snd k"] by simp
      with ol(2) that usB show False by blast
    qed
    moreover have "k \<notin> ?E" if "k \<in> set (both ?L1)" for k
      using frag_links_fresh [OF fr that] .
    ultimately show ?thesis using H3 by (auto simp: both_append)
  qed
  have len: "int (length (?L1 @ ?L2))
             = int (card (bonded_fragments m)) - 1 + int (card (orphan_atoms m))"
  proof (cases "G = []")
    case True
    with ol(4) cnt up(3) show ?thesis by simp
  next
    case False
    then have "1 \<le> length G" by (cases G) auto
    with False ol(4) cnt up(3) show ?thesis by (simp add: length_frag_links of_nat_diff)
  qed
  from c d f have "int (length (bond_keys m')) = int (length (bond_keys m)) + 2 * int (length (?L1 @ ?L2))"
    by simp
  with len have count: "int (length (bond_keys m'))
      = int (length (bond_keys m))
        + 2 * (int (card (bonded_fragments m)) - 1 + int (card (orphan_atoms m)))" by simp
  have links: "\<forall>k \<in> set (bond_keys m') - set (bond_keys m).
      \<exists>b. heap m' (Key (fst k) (snd k)) = Some (Bond b)
         \<and> bond_type b = Some (Str ''link'') \<and> tikz_styles b = {}"
    using s hl by (auto simp: is_link_def)
  have "connected_molecule m'"
  proof -
    let ?T = "?E \<union> set (both (?L1 @ ?L2))"
    have symT: "sym ?T" using pair_rel_sym [of "atom_pairs m"] sym_both [of "?L1 @ ?L2"]
      by (simp add: sym_Un)
    have TS: "?T \<subseteq> neighbor_rel m'" using n H2 by blast
    from ol(5) obtain t where t: "t \<in> ?B \<union> set ?us" "G \<noteq> [] \<longrightarrow> t \<in> ?B"
      "\<forall>u \<in> set ?us. u = t \<or> (t, u) \<in> set (both ?L2)" by blast
    have cB: "conn ?T ?B"
    proof -
      have "\<forall>f \<in> set G. f \<noteq> [] \<and> conn ?T (atoms_of f)"
        using fr conn_mono [of ?E ?T] by (auto simp: fragmentation_def)
      moreover have "set ?L1 \<subseteq> ?T" by (auto simp: both_def)
      ultimately show ?thesis using chain_conn [OF symT, of G] BG by simp
    qed
    have "(t, a) \<in> ?T\<^sup>*" if a: "a \<in> ?K" for a
    proof (cases "a \<in> ?B")
      case True
      then have "G \<noteq> []" using BG by auto
      with t(2) have "t \<in> ?B" by simp
      with cB True show ?thesis by (simp add: conn_def)
    next
      case False
      with a KBu have "a \<in> set ?us" by blast
      with t(3) have "a = t \<or> (t, a) \<in> ?T" by (auto simp: both_append)
      then show ?thesis by auto
    qed
    with conn_center [OF symT, of ?K t] have "conn ?T ?K" by blast
    from conn_mono [OF TS this] k show ?thesis
      by (simp add: connected_molecule_def conn_def)
  qed
  with r count links k show ?thesis by blast
qed

text \<open>
  The theorem at a molecule of one bond and one orphan atom.
\<close>

theorem connect_fragments_links_witness:
  "\<exists>m'. connect_fragments indigo_consts bond_and_orphan = Inr m'
       \<and> int (length (bond_keys m'))
           = 2 + 2 * (int (card (bonded_fragments bond_and_orphan)) - 1
                      + int (card (orphan_atoms bond_and_orphan)))
       \<and> connected_molecule m'"
proof -
  have H1: "atoms_of (atom_pairs bond_and_orphan) \<subseteq> fst ` set (atoms bond_and_orphan)"
    by (simp add: atoms_of_def)
  have H2: "pair_rel (atom_pairs bond_and_orphan) \<subseteq> neighbor_rel bond_and_orphan"
    by (auto simp: pair_rel_def neighbor_rel_def)
  have H3: "set (bond_keys bond_and_orphan) \<subseteq> pair_rel (atom_pairs bond_and_orphan)"
    by (simp add: pair_rel_def)
  have H4: "atoms bond_and_orphan \<noteq> []" by simp
  from connect_fragments_links [OF H1 H2 H3 H4, of indigo_consts] show ?thesis
    by auto
qed

text \<open>
  Claim C5 as stated covers the molecule without atoms, with no fragment and no orphan:
  there K - 1 plus the orphan count is -1, and the code synthesizes nothing.
\<close>

theorem connect_fragments_no_atoms:
  "connect_fragments indigo_consts no_atoms = Inr no_atoms
   \<and> int (card (bonded_fragments no_atoms)) - 1 + int (card (orphan_atoms no_atoms)) = - 1"
  by (simp add: connect_fragments_def molecule_fragments_def unbonded_atoms_def
      bonded_fragments_def orphan_atoms_def atoms_of_def)

subsection \<open>Invalid entry and exit atoms\<close>






lemma flip_atoms_Nil: "flip_atoms options' as = [] \<longleftrightarrow> as = []"
  by (simp add: flip_atoms_def)

lemma bonds_get_bonds_set:
  "bonds_get (bonds_set k b m) k' = (if k' = k then Some b else bonds_get m k')"
  by (auto simp: bonds_get_def bonds_set_def prod_eq_iff)









subsection \<open>A cross bond that is the last descendant of the exit bond\<close>





lemma py_round_int [simp]: "py_round (of_int i) = i"
  by (simp add: py_round_def)

lemma py_round_numeral [simp]: "py_round (numeral n) = numeral n" "py_round 0 = 0"
  "py_round (- numeral n) = - numeral n"
  by (simp_all add: py_round_def)




end
